theory Spec2Isabelle
  imports Main
begin

section \<open>Python strings\<close>

text \<open>
  A Python \<open>str\<close> is modelled as a \<open>string\<close>: each \<open>char\<close> stands for one code point in
  the range 0..255 (Latin-1).  On that range the classes below are the ones Python 3 uses:
  \<open>str.strip()\<close>, \<open>str.isspace()\<close> and the regular-expression class \<open>\s\<close> agree on the
  twelve white-space characters of \<open>space\<close>, \<open>\d\<close> is the ten ASCII digits, and \<open>.\<close>
  (without the DOTALL flag) is every character except the newline.
\<close>

definition newline :: char where
  "newline = CHR 0x0A"

definition space :: "char \<Rightarrow> bool" where
  "space c \<longleftrightarrow> c \<in> {CHR 0x09, CHR 0x0A, CHR 0x0B, CHR 0x0C, CHR 0x0D,
                    CHR 0x1C, CHR 0x1D, CHR 0x1E, CHR 0x1F, CHR 0x20, CHR 0x85, CHR 0xA0}"

definition digit :: "char \<Rightarrow> bool" where
  "digit c \<longleftrightarrow> c \<in> set ''0123456789''"

definition dot :: "char \<Rightarrow> bool" where
  "dot c \<longleftrightarrow> c \<noteq> newline"

definition is_chr :: "char \<Rightarrow> char \<Rightarrow> bool" where
  "is_chr a c \<longleftrightarrow> c = a"

definition not_chr :: "char \<Rightarrow> char \<Rightarrow> bool" where
  "not_chr a c \<longleftrightarrow> c \<noteq> a"

text \<open>\<open>s.lstrip()\<close>, \<open>s.rstrip()\<close> and \<open>s.strip()\<close> without arguments.\<close>

definition lstrip :: "string \<Rightarrow> string" where
  "lstrip s = dropWhile space s"

definition rstrip :: "string \<Rightarrow> string" where
  "rstrip s = rev (dropWhile space (rev s))"

definition strip :: "string \<Rightarrow> string" where
  "strip s = rstrip (lstrip s)"

text \<open>\<open>s.split('\n')\<close>: the pieces between the newlines; there is always at least one piece.\<close>

fun split_nl :: "string \<Rightarrow> string list" where
  "split_nl [] = [[]]"
| "split_nl (c # cs) =
     (if c = newline then [] # split_nl cs
      else (case split_nl cs of l # ls \<Rightarrow> (c # l) # ls | [] \<Rightarrow> [[c]]))"

text \<open>\<open>s.startswith(p)\<close> and the substring test \<open>p in s\<close>.\<close>

definition startswith :: "'a list \<Rightarrow> 'a list \<Rightarrow> bool" where
  "startswith s p \<longleftrightarrow> take (length p) s = p"

fun contains :: "'a list \<Rightarrow> 'a list \<Rightarrow> bool" where
  "contains p [] \<longleftrightarrow> p = []"
| "contains p (x # xs) \<longleftrightarrow> startswith (x # xs) p \<or> contains p xs"

section \<open>Regular expressions\<close>

text \<open>
  The three patterns of the program are sequences of character classes, each taken once
  or repeated (\<open>+\<close>, \<open>*\<close>, and the non-greedy \<open>*?\<close>), and the anchors \<open>^\<close> and \<open>$\<close>.
  \<open>run\<close> is the backtracking matcher of Python's \<open>re\<close> for such a sequence at one start
  position: a greedy repetition first tries to take one more character and gives it back
  only when the rest of the pattern fails, a non-greedy one first tries the rest of the
  pattern.  The result holds the text consumed by each class, in pattern order; a capture
  group is the concatenation of the pieces of the classes it encloses.  The flag \<open>adv\<close> is
  the engine's \<open>must_advance\<close>: when set, a match that consumes nothing is rejected.
  \<open>pos\<close> is the offset of the current position in the subject string.
\<close>

datatype quant = Once | OneOrMore | ZeroOrMore | ZeroOrMoreLazy

datatype tok = Cls "char \<Rightarrow> bool" quant | Bol | Eol

definition grow :: "char \<Rightarrow> string list option \<Rightarrow> string list option" where
  "grow x r = (case r of Some (p # ps) \<Rightarrow> Some ((x # p) # ps) | _ \<Rightarrow> None)"

definition piece :: "string \<Rightarrow> string list option \<Rightarrow> string list option" where
  "piece p r = map_option (Cons p) r"

fun run :: "tok list \<Rightarrow> bool \<Rightarrow> nat \<Rightarrow> string \<Rightarrow> string list option" where
  "run [] adv pos s = (if adv then None else Some [])"
| "run (Bol # ts) adv pos s = (if pos = 0 then run ts adv pos s else None)"
| "run (Eol # ts) adv pos s = (if s = [] \<or> s = [newline] then run ts adv pos s else None)"
| "run (Cls c Once # ts) adv pos [] = None"
| "run (Cls c Once # ts) adv pos (x # xs) =
     (if c x then piece [x] (run ts False (Suc pos) xs) else None)"
| "run (Cls c OneOrMore # ts) adv pos [] = None"
| "run (Cls c OneOrMore # ts) adv pos (x # xs) =
     (if c x then grow x (run (Cls c ZeroOrMore # ts) False (Suc pos) xs) else None)"
| "run (Cls c ZeroOrMore # ts) adv pos [] = piece [] (run ts adv pos [])"
| "run (Cls c ZeroOrMore # ts) adv pos (x # xs) =
     (if c x then
        (case grow x (run (Cls c ZeroOrMore # ts) False (Suc pos) xs) of
           Some r \<Rightarrow> Some r
         | None \<Rightarrow> piece [] (run ts adv pos (x # xs)))
      else piece [] (run ts adv pos (x # xs)))"
| "run (Cls c ZeroOrMoreLazy # ts) adv pos [] = piece [] (run ts adv pos [])"
| "run (Cls c ZeroOrMoreLazy # ts) adv pos (x # xs) =
     (case piece [] (run ts adv pos (x # xs)) of
        Some r \<Rightarrow> Some r
      | None \<Rightarrow> if c x then grow x (run (Cls c ZeroOrMoreLazy # ts) False (Suc pos) xs) else None)"

text \<open>
  \<open>re.search\<close>: the first start position, from left to right, at which the pattern
  matches; the result is the text skipped ahead of the match and the pieces of the match.
  \<open>must_advance\<close> only applies to the attempt at the first position.
\<close>

fun search :: "tok list \<Rightarrow> bool \<Rightarrow> nat \<Rightarrow> string \<Rightarrow> (string \<times> string list) option" where
  "search ts adv pos [] = map_option (Pair []) (run ts adv pos [])"
| "search ts adv pos (x # xs) =
     (case run ts adv pos (x # xs) of
        Some ps \<Rightarrow> Some ([], ps)
      | None \<Rightarrow> map_option (\<lambda>(skipped, ps). (x # skipped, ps)) (search ts False (Suc pos) xs))"

text \<open>A successful attempt consumes a prefix of the subject, as long as the pieces say.\<close>

lemma grow_Some: "grow x r = Some qs \<longleftrightarrow> (\<exists>p ps. r = Some (p # ps) \<and> qs = (x # p) # ps)"
  by (auto simp: grow_def split: option.splits list.splits)

lemma piece_Some: "piece p r = Some qs \<longleftrightarrow> (\<exists>ps. r = Some ps \<and> qs = p # ps)"
  by (auto simp: piece_def)

lemma run_prefix: "run ts adv pos s = Some ps \<Longrightarrow> \<exists>rest. s = concat ps @ rest"
  by (induction ts adv pos s arbitrary: ps rule: run.induct)
     (auto simp: grow_Some piece_Some split: if_splits option.splits)

lemma run_adv: "run ts True pos s = Some ps \<Longrightarrow> concat ps \<noteq> []"
  by (induction ts "True" pos s arbitrary: ps rule: run.induct)
     (auto simp: grow_Some piece_Some split: if_splits option.splits)

lemma search_split:
  "search ts adv pos s = Some (sk, ps) \<Longrightarrow> \<exists>rest. s = sk @ concat ps @ rest"
  by (induction ts adv pos s arbitrary: sk ps rule: search.induct)
     (auto dest: run_prefix split: option.splits)

lemma search_adv: "search ts True pos s = Some ([], ps) \<Longrightarrow> concat ps \<noteq> []"
  by (cases s) (auto dest: run_adv split: option.splits)

text \<open>
  \<open>re.findall\<close> for a pattern whose single group spans the whole pattern: the matched
  texts, from left to right.  After a match the scan resumes where the match ended; after
  an empty match it resumes at the same place with \<open>must_advance\<close> set.
\<close>

function findall :: "tok list \<Rightarrow> bool \<Rightarrow> nat \<Rightarrow> string \<Rightarrow> string list" where
  "findall ts adv pos s =
     (case search ts adv pos s of
        None \<Rightarrow> []
      | Some (skipped, ps) \<Rightarrow>
          (let m = concat ps; n = length skipped + length m
           in m # findall ts (m = []) (pos + n) (drop n s)))"
  by pat_completeness auto
termination
proof (relation "measures [\<lambda>(ts, adv, pos, s). length s,
                           \<lambda>(ts, adv, pos, s). if adv then 0 else 1]", goal_cases)
  case 1
  show ?case by simp
next
  case (2 ts adv pos s x2 skipped ps m n)
  then obtain rest where s: "s = skipped @ concat ps @ rest"
    by (auto dest!: search_split)
  show ?case
  proof (cases "n = 0")
    case True
    with 2 have "skipped = []" "concat ps = []" by auto
    with 2 have "\<not> adv" using search_adv[of ts pos s ps] by (cases adv) auto
    with True 2 show ?thesis by auto
  next
    case False
    with 2 s show ?thesis by auto
  qed
qed

declare findall.simps [simp del]

declare search.simps [simp del]

section \<open>The record parser\<close>

text \<open>
  A row is a Python \<open>dict\<close> from field names to values.  The parser only stores strings;
  rows that come back from the editable table may hold \<open>None\<close> or a float NaN in an empty
  cell, and \<open>str(...)\<close> turns those into \<open>None\<close> and \<open>nan\<close>.
\<close>

datatype pyval = PyStr string | PyNone | PyNaN

fun py_str :: "pyval \<Rightarrow> string" where
  "py_str (PyStr s) = s"
| "py_str PyNone = ''None''"
| "py_str PyNaN = ''nan''"

type_synonym dict = "string \<rightharpoonup> pyval"

definition get :: "dict \<Rightarrow> string \<Rightarrow> pyval \<Rightarrow> pyval" where
  "get d k dflt = (case d k of Some v \<Rightarrow> v | None \<Rightarrow> dflt)"

text \<open>The pattern \<^verbatim>\<open>^(.*?)\s+(R\d+)\s+(.*)$\<close>; its groups are piece 0, pieces 2 and 3, and piece 5.\<close>

definition line_re :: "tok list" where
  "line_re = [Bol, Cls dot ZeroOrMoreLazy, Cls space OneOrMore, Cls (is_chr CHR ''R'') Once,
              Cls digit OneOrMore, Cls space OneOrMore, Cls dot ZeroOrMore, Eol]"

text \<open>
  One pass of the loop body of \<open>parse_consolidated_line\<close> for a line that is not blank.
  \<open>today\<close> is the string \<^verbatim>\<open>datetime.datetime.now().strftime("%Y-%m-%d")\<close> gives.
\<close>

definition parse_line :: "string \<Rightarrow> string \<Rightarrow> dict" where
  "parse_line today line =
     (case search line_re False 0 (strip line) of
        Some (skipped, ps) \<Rightarrow>
          [''rn'' \<mapsto> PyStr [],
           ''date'' \<mapsto> PyStr today,
           ''name'' \<mapsto> PyStr (strip (ps ! 0)),
           ''amount'' \<mapsto> PyStr (strip (ps ! 2 @ ps ! 3)),
           ''reason'' \<mapsto> PyStr (strip (ps ! 5)),
           ''type'' \<mapsto> PyStr ''EFT'']
      | None \<Rightarrow>
          [''rn'' \<mapsto> PyStr [],
           ''date'' \<mapsto> PyStr today,
           ''name'' \<mapsto> PyStr (take 20 line @ ''...''),
           ''amount'' \<mapsto> PyStr [],
           ''reason'' \<mapsto> PyStr line,
           ''type'' \<mapsto> PyStr ''EFT''])"



section \<open>textwrap.wrap\<close>

text \<open>
  \<open>textwrap.wrap(text, width)\<close> of the standard library, with its default options
  (\<open>expand_tabs\<close>, \<open>replace_whitespace\<close>, \<open>drop_whitespace\<close>, \<open>break_long_words\<close>,
  \<open>break_on_hyphens\<close>, no indent, no \<open>max_lines\<close>), for a width of at least one; the
  program calls it with 45.  The module's own white space is the six characters of
  \<open>tw_space\<close>, fewer than \<open>str.strip()\<close> removes.
\<close>

definition tw_space :: "char \<Rightarrow> bool" where
  "tw_space c \<longleftrightarrow> c \<in> {CHR 0x09, CHR 0x0A, CHR 0x0B, CHR 0x0C, CHR 0x0D, CHR 0x20}"

definition code :: "char \<Rightarrow> nat" where
  "code c = of_char c"

text \<open>The classes \<^verbatim>\<open>[^\d\W]\<close>, \<^verbatim>\<open>\w\<close> and \<^verbatim>\<open>[\w!"'&.,?]\<close> on the code points below 256.\<close>

definition letter :: "char \<Rightarrow> bool" where
  "letter c \<longleftrightarrow>
     (let n = code c in
      (65 \<le> n \<and> n \<le> 90) \<or> n = 95 \<or> (97 \<le> n \<and> n \<le> 122) \<or>
      n \<in> {170, 178, 179, 181, 185, 186, 188, 189, 190} \<or>
      (192 \<le> n \<and> n \<le> 214) \<or> (216 \<le> n \<and> n \<le> 246) \<or> (248 \<le> n \<and> n \<le> 255))"

definition wordchar :: "char \<Rightarrow> bool" where
  "wordchar c \<longleftrightarrow> letter c \<or> digit c"

definition word_punct :: "char \<Rightarrow> bool" where
  "word_punct c \<longleftrightarrow> wordchar c \<or> c \<in> set ''!\"'' \<or> c = CHR 0x27 \<or> c \<in> set ''&.,?''"

text \<open>\<open>str.expandtabs(8)\<close>: \<open>col\<close> is the column, reset by a newline or a carriage return.\<close>

fun expandtabs :: "nat \<Rightarrow> string \<Rightarrow> string" where
  "expandtabs col [] = []"
| "expandtabs col (c # cs) =
     (if c = CHR 0x09 then
        replicate (8 - col mod 8) CHR '' '' @ expandtabs (col + (8 - col mod 8)) cs
      else if c = newline \<or> c = CHR 0x0D then c # expandtabs 0 cs
      else c # expandtabs (Suc col) cs)"

definition munge_whitespace :: "string \<Rightarrow> string" where
  "munge_whitespace text = map (\<lambda>c. if tw_space c then CHR '' '' else c) (expandtabs 0 text)"

text \<open>
  \<open>wordsep_re.split\<close>.  The pattern has three alternatives, tried in this order at each
  position: a run of white space; a run of two or more hyphens between a \<open>word_punct\<close>
  character and a \<open>wordchar\<close> (an em-dash); a word, which is the shortest run of
  characters other than white space that is followed by one of (a) a hyphen with two
  letters, or letter-hyphen-letter, in front of it and a letter, or hyphen and letter, after
  it (the hyphen then belongs to the chunk), (b) white space or the end of the text,
  (c) an em-dash.  Every position starts a match, so the chunks are the successive
  matches.  \<open>left\<close> is the text to the left of the current position, reversed: the
  look-behinds read it.
\<close>

definition em_dash :: "string \<Rightarrow> string \<Rightarrow> bool" where
  "em_dash left s \<longleftrightarrow>
     (case left of b # _ \<Rightarrow> word_punct b | [] \<Rightarrow> False) \<and>
     2 \<le> length (takeWhile (\<lambda>c. c = CHR ''-'') s) \<and>
     (case dropWhile (\<lambda>c. c = CHR ''-'') s of c # _ \<Rightarrow> wordchar c | [] \<Rightarrow> False)"

definition hyphen_break :: "string \<Rightarrow> string \<Rightarrow> bool" where
  "hyphen_break left s \<longleftrightarrow>
     (case s of
        [] \<Rightarrow> False
      | c # rest \<Rightarrow>
          c = CHR ''-'' \<and>
          (case left of
             b1 # b2 # bs \<Rightarrow>
               letter b1 \<and> (letter b2 \<or> (b2 = CHR ''-'' \<and> (case bs of b3 # _ \<Rightarrow> letter b3 | [] \<Rightarrow> False)))
           | _ \<Rightarrow> False) \<and>
          (case rest of
             l1 # x # rest' \<Rightarrow>
               letter l1 \<and> (letter x \<or> (x = CHR ''-'' \<and> (case rest' of l2 # _ \<Rightarrow> letter l2 | [] \<Rightarrow> False)))
           | _ \<Rightarrow> False))"

fun word_rest :: "string \<Rightarrow> string \<Rightarrow> string" where
  "word_rest left [] = []"
| "word_rest left (c # cs) =
     (if hyphen_break left (c # cs) then [c]
      else if tw_space c then []
      else if em_dash left (c # cs) then []
      else c # word_rest (c # left) cs)"

fun next_chunk :: "string \<Rightarrow> string \<Rightarrow> string" where
  "next_chunk left [] = []"
| "next_chunk left (c # cs) =
     (if tw_space c then takeWhile tw_space (c # cs)
      else if em_dash left (c # cs) then takeWhile (\<lambda>x. x = CHR ''-'') (c # cs)
      else c # word_rest (c # left) cs)"

lemma next_chunk_nonempty: "s \<noteq> [] \<Longrightarrow> next_chunk left s \<noteq> []"
  by (cases s) (auto simp: em_dash_def)

function split_chunks :: "string \<Rightarrow> string \<Rightarrow> string list" where
  "split_chunks left s =
     (if s = [] then []
      else (let c = next_chunk left s
            in c # split_chunks (rev c @ left) (drop (length c) s)))"
  by pat_completeness auto
termination
  by (relation "measure (\<lambda>(left, s). length s)") (auto simp: next_chunk_nonempty)

declare split_chunks.simps [simp del]

text \<open>
  \<open>_wrap_chunks\<close>.  \<open>fill\<close> is the inner loop, which moves chunks to the current line as
  long as they fit; \<open>handle_long_word\<close> cuts a chunk that is longer than the width,
  after the last hyphen that fits if there is one with something other than hyphens
  in front of it; \<open>wrap_line\<close> is one pass of the outer loop (drop a blank first chunk
  unless this is the first line, fill, break a long word, drop a blank last chunk) and
  returns the chunks of the line and the chunks that remain; \<open>started\<close> says that a line
  has been produced already.
\<close>

definition blank :: "string \<Rightarrow> bool" where
  "blank s \<longleftrightarrow> strip s = []"

fun fill :: "nat \<Rightarrow> nat \<Rightarrow> string list \<Rightarrow> string list \<times> string list" where
  "fill w cur_len [] = ([], [])"
| "fill w cur_len (c # cs) =
     (if cur_len + length c \<le> w then
        (case fill w (cur_len + length c) cs of (line, rest) \<Rightarrow> (c # line, rest))
      else ([], c # cs))"

fun rfind :: "char \<Rightarrow> string \<Rightarrow> nat option" where
  "rfind a [] = None"
| "rfind a (x # xs) =
     (case rfind a xs of Some i \<Rightarrow> Some (Suc i) | None \<Rightarrow> if x = a then Some 0 else None)"

definition break_point :: "nat \<Rightarrow> string \<Rightarrow> nat" where
  "break_point space_left chunk =
     (if space_left < length chunk then
        (case rfind CHR ''-'' (take space_left chunk) of
           Some hyphen \<Rightarrow>
             if 0 < hyphen \<and> (\<exists>c \<in> set (take hyphen chunk). c \<noteq> CHR ''-'')
             then hyphen + 1 else space_left
         | None \<Rightarrow> space_left)
      else space_left)"

definition handle_long_word :: "nat \<Rightarrow> string list \<Rightarrow> string list \<Rightarrow> string list \<times> string list" where
  "handle_long_word w chunks cur_line =
     (case chunks of
        [] \<Rightarrow> (cur_line, [])
      | chunk # rest \<Rightarrow>
          (let cur_len = sum_list (map length cur_line);
               space_left = (if w < 1 then 1 else w - cur_len);
               en = break_point space_left chunk
           in (cur_line @ [take en chunk], drop en chunk # rest)))"

definition drop_first_blank :: "bool \<Rightarrow> string list \<Rightarrow> string list" where
  "drop_first_blank started chunks =
     (case chunks of c # cs \<Rightarrow> if started \<and> blank c then cs else chunks | [] \<Rightarrow> [])"

definition break_long :: "nat \<Rightarrow> string list \<times> string list \<Rightarrow> string list \<times> string list" where
  "break_long w lc =
     (case lc of
        (cur_line, chunks) \<Rightarrow>
          (case chunks of
             c # cs \<Rightarrow> if w < length c then handle_long_word w chunks cur_line
                       else (cur_line, chunks)
           | [] \<Rightarrow> (cur_line, chunks)))"

definition drop_last_blank :: "string list \<Rightarrow> string list" where
  "drop_last_blank cur_line =
     (if cur_line \<noteq> [] \<and> blank (last cur_line) then butlast cur_line else cur_line)"

definition wrap_line :: "nat \<Rightarrow> bool \<Rightarrow> string list \<Rightarrow> string list \<times> string list" where
  "wrap_line w started chunks =
     (case break_long w (fill w 0 (drop_first_blank started chunks)) of
        (cur_line, rest) \<Rightarrow> (drop_last_blank cur_line, rest))"

definition weight :: "string list \<Rightarrow> nat" where
  "weight chunks = sum_list (map (\<lambda>c. Suc (length c)) chunks)"

text \<open>Every pass of the outer loop consumes something, so the loop ends.\<close>


lemma fill_weight: "fill w n chunks = (line, rest) \<Longrightarrow> weight rest \<le> weight chunks"
proof (induction w n chunks arbitrary: line rest rule: fill.induct)
  case (1 w cur_len)
  then show ?case by simp
next
  case (2 w cur_len c cs)
  show ?case
  proof (cases "cur_len + length c \<le> w")
    case True
    obtain l r where f: "fill w (cur_len + length c) cs = (l, r)" by (cases "fill w (cur_len + length c) cs")
    with 2 True have "rest = r" by simp
    moreover have "weight r \<le> weight cs" using 2(1)[OF True f] .
    ultimately show ?thesis by (simp add: weight_def)
  next
    case False
    with 2 show ?thesis by simp
  qed
qed

lemma handle_long_word_weight:
  "handle_long_word w chunks cur_line = (line, rest) \<Longrightarrow> weight rest \<le> weight chunks"
  unfolding handle_long_word_def weight_def Let_def
  by (cases chunks) auto

lemma break_long_weight: "break_long w (cur_line, chunks) = (line, rest) \<Longrightarrow> weight rest \<le> weight chunks"
  unfolding break_long_def
  by (cases chunks) (auto dest: handle_long_word_weight split: if_splits)


lemma rfind_less: "rfind a s = Some i \<Longrightarrow> i < length s"
  by (induction s arbitrary: i) (auto split: option.splits if_splits)

lemma break_point_pos: "0 < n \<Longrightarrow> 0 < break_point n c"
  by (simp add: break_point_def split: option.splits)

lemma break_point_le: "break_point n c \<le> n"
  by (auto simp: break_point_def dest!: rfind_less split: option.splits)

lemma handle_long_word_first:
  assumes "handle_long_word w (c # cs) [] = (line, rest)" "w < length c"
  shows "weight rest < weight (c # cs)"
proof -
  define en where "en = break_point (if w < 1 then 1 else w) c"
  have "0 < en" unfolding en_def by (rule break_point_pos) simp
  have rest: "rest = drop en c # cs"
    using assms(1) by (auto simp: handle_long_word_def Let_def en_def split: if_splits)
  from assms(2) have "c \<noteq> []" by auto
  with \<open>0 < en\<close> have "length (drop en c) < length c" by simp
  with rest show ?thesis by (simp add: weight_def)
qed

lemma wrap_line_weight:
  assumes "chunks \<noteq> []" "wrap_line w started chunks = (line, rest)"
  shows "weight rest < weight chunks"
proof -
  obtain c cs where chunks: "chunks = c # cs" using assms(1) by (cases chunks) auto
  obtain cur_line chunks2 where f: "fill w 0 (drop_first_blank started chunks) = (cur_line, chunks2)"
    by (cases "fill w 0 (drop_first_blank started chunks)")
  obtain l3 where b: "break_long w (cur_line, chunks2) = (l3, rest)"
    using assms(2) f by (cases "break_long w (cur_line, chunks2)") (simp add: wrap_line_def)
  have le2: "weight rest \<le> weight chunks2" using break_long_weight[OF b] .
  have le1: "weight chunks2 \<le> weight (drop_first_blank started chunks)" using fill_weight[OF f] .
  show ?thesis
  proof (cases "started \<and> blank c")
    case True
    then have "weight (drop_first_blank started chunks) < weight chunks"
      by (simp add: drop_first_blank_def chunks weight_def)
    with le1 le2 show ?thesis by simp
  next
    case False
    then have c1: "drop_first_blank started chunks = c # cs"
      by (simp add: drop_first_blank_def chunks)
    show ?thesis
    proof (cases "length c \<le> w")
      case True
      obtain l' r' where f': "fill w (length c) cs = (l', r')" by (cases "fill w (length c) cs")
      with f c1 True have "chunks2 = r'" by simp
      with fill_weight[OF f'] have "weight chunks2 < weight chunks" by (simp add: chunks weight_def)
      with le2 show ?thesis by simp
    next
      case False
      with f c1 have "cur_line = []" "chunks2 = c # cs" by auto
      with False b have "handle_long_word w (c # cs) [] = (l3, rest)" by (simp add: break_long_def)
      with False show ?thesis using handle_long_word_first[of w c cs l3 rest] chunks by simp
    qed
  qed
qed

function wrap_chunks :: "nat \<Rightarrow> bool \<Rightarrow> string list \<Rightarrow> string list" where
  "wrap_chunks w started chunks =
     (if chunks = [] then []
      else (case wrap_line w started chunks of
              (cur_line, rest) \<Rightarrow>
                if cur_line \<noteq> [] then concat cur_line # wrap_chunks w True rest
                else wrap_chunks w started rest))"
  by pat_completeness auto
termination
proof (relation "measure (\<lambda>(w, started, chunks). weight chunks)", goal_cases)
  case 1
  show ?case by simp
next
  case (2 w started chunks x y)
  then show ?case using wrap_line_weight[of chunks w started x y] by simp
next
  case (3 w started chunks x y)
  then show ?case using wrap_line_weight[of chunks w started x y] by simp
qed

declare wrap_chunks.simps [simp del]

definition wrap :: "nat \<Rightarrow> string \<Rightarrow> string list" where
  "wrap w text = wrap_chunks w False (split_chunks [] (munge_whitespace text))"

section \<open>The receipt renderer\<close>

text \<open>
  \<open>get_fonts\<close> loads Arial at sizes 18 and 22 and falls back to the built-in font for both
  when the file cannot be read; \<open>arial\<close> says whether the font file is available.
\<close>

datatype font = Truetype nat | Default_font

definition get_fonts :: "bool \<Rightarrow> font \<times> font" where
  "get_fonts arial = (if arial then (Truetype 18, Truetype 22) else (Default_font, Default_font))"

text \<open>
  A call \<^verbatim>\<open>draw.text(xy, text, fill=..., font=...)\<close>.  An image is the pixels it was copied
  from together with the texts drawn on it since, in drawing order; what the rasteriser
  makes of a call is a function of the call alone.
\<close>

datatype draw_call = Text "int \<times> int" string "nat \<times> nat \<times> nat" font


definition black :: "nat \<times> nat \<times> nat" where
  "black = (0, 0, 0)"

text \<open>
  \<open>str.upper()\<close> maps each character on its own.  The result is a list of code points,
  because the upper case of two Latin-1 characters lies outside Latin-1 (U+039C for the
  micro sign and U+0178 for y with diaeresis), and the sharp s becomes two characters.
\<close>

definition upper_char :: "char \<Rightarrow> nat list" where
  "upper_char c =
     (let n = code c in
      if 97 \<le> n \<and> n \<le> 122 then [n - 32]
      else if n = 181 then [924]
      else if n = 223 then [83, 83]
      else if (224 \<le> n \<and> n \<le> 246) \<or> (248 \<le> n \<and> n \<le> 254) then [n - 32]
      else if n = 255 then [376]
      else [n])"

definition upper :: "string \<Rightarrow> nat list" where
  "upper s = concat (map upper_char s)"

definition x_start :: int where
  "x_start = 260"

definition y_start :: int where
  "y_start = 355"

definition line_height :: int where
  "line_height = 20"

text \<open>
  The patterns \<^verbatim>\<open>(.*)\((.*)\)\<close>, whose groups are pieces 0 and 2, and
  \<^verbatim>\<open>(R\d+\s+[^R]+)\<close>.
\<close>

definition paren_re :: "tok list" where
  "paren_re = [Cls dot ZeroOrMore, Cls (is_chr CHR ''('') Once,
               Cls dot ZeroOrMore, Cls (is_chr CHR '')'') Once]"

definition item_re :: "tok list" where
  "item_re = [Cls (is_chr CHR ''R'') Once, Cls digit OneOrMore, Cls space OneOrMore,
              Cls (not_chr CHR ''R'') OneOrMore]"

definition breakdown_items :: "string \<Rightarrow> string list" where
  "breakdown_items breakdown_text =
     findall item_re False 0
       (if \<not> startswith (strip breakdown_text) ''R'' then ''R'' @ breakdown_text
        else breakdown_text)"

text \<open>The loop over the items, with its cursor, and the loop over the wrapped lines.\<close>

fun draw_items :: "font \<Rightarrow> int \<Rightarrow> string list \<Rightarrow> draw_call list" where
  "draw_items f y_cursor [] = []"
| "draw_items f y_cursor (item # items) =
     Text (x_start + 10, y_cursor) (''- '' @ strip item) black f
       # draw_items f (y_cursor + line_height) items"

fun draw_lines :: "font \<Rightarrow> int \<Rightarrow> string list \<Rightarrow> draw_call list" where
  "draw_lines f i [] = []"
| "draw_lines f i (line # lines) =
     Text (x_start, y_start + i * line_height) line black f # draw_lines f (i + 1) lines"

definition reason_calls :: "font \<Rightarrow> string \<Rightarrow> draw_call list" where
  "reason_calls f raw_reason =
     (case search paren_re False 0 raw_reason of
        Some (skipped, ps) \<Rightarrow>
          (let main_reason = strip (ps ! 0);
               breakdown_text = strip (ps ! 2)
           in Text (x_start, y_start) main_reason black f
                # draw_items f (y_start + line_height) (breakdown_items breakdown_text))
      | None \<Rightarrow> draw_lines f 0 (wrap 45 raw_reason))"

text \<open>The calls of \<open>draw.text\<close> that \<open>create_receipt_image\<close> makes, in order.\<close>

definition checkbox :: "string \<Rightarrow> int \<times> int" where
  "checkbox ty =
     (let payment_type = upper (strip ty)
      in if contains (map code ''CASH'') payment_type then (97, 172) else (197, 172))"

definition receipt_calls :: "bool \<Rightarrow> dict \<Rightarrow> draw_call list" where
  "receipt_calls arial data =
     (case get_fonts arial of
        (font, check_font) \<Rightarrow>
          (let name = py_str (get data ''name'' (PyStr []));
               amount = py_str (get data ''amount'' (PyStr []));
               raw_reason = py_str (get data ''reason'' (PyStr []));
               rn = py_str (get data ''rn'' (PyStr []));
               date = py_str (get data ''date'' (PyStr []))
           in [Text (checkbox (py_str (get data ''type'' (PyStr ''EFT'')))) ''X'' black check_font,
               Text (400, 185) rn black font,
               Text (260, 225) name black font,
               Text (260, 290) amount black font,
               Text (400, 443) date black font]
              @ reason_calls font raw_reason))"





section \<open>What the patterns match\<close>






definition amount_follows :: "string \<Rightarrow> bool" where
  "amount_follows s \<longleftrightarrow>
     takeWhile space s \<noteq> [] \<and>
     (case dropWhile space s of
        [] \<Rightarrow> False
      | c # s2 \<Rightarrow> c = CHR ''R'' \<and> takeWhile digit s2 \<noteq> [] \<and>
                  (case dropWhile digit s2 of [] \<Rightarrow> False | x # _ \<Rightarrow> space x))"

definition line_tail :: "tok list" where
  "line_tail = [Cls space OneOrMore, Cls (is_chr CHR ''R'') Once, Cls digit OneOrMore,
                Cls space OneOrMore, Cls dot ZeroOrMore, Eol]"

text \<open>
  The fields of a line as the specification words them, for comparison: the shortest
  leading text, which may be empty, in front of a letter R with one or more digits; the
  R with its digits; and what is left of the line.
\<close>

fun claimed_fields :: "string \<Rightarrow> (string \<times> string \<times> string) option" where
  "claimed_fields [] = None"
| "claimed_fields (c # cs) =
     (if c = CHR ''R'' \<and> takeWhile digit cs \<noteq> []
      then Some ([], c # takeWhile digit cs, dropWhile digit cs)
      else map_option (\<lambda>(n, a, r). (c # n, a, r)) (claimed_fields cs))"


section \<open>Properties of the renderer\<close>

text \<open>The position of a call, and the calls that draw at one of the two checkbox positions.\<close>

fun call_xy :: "draw_call \<Rightarrow> int \<times> int" where
  "call_xy (Text xy t col f) = xy"

definition marks :: "draw_call list \<Rightarrow> draw_call list" where
  "marks calls = filter (\<lambda>c. call_xy c = (97, 172) \<or> call_xy c = (197, 172)) calls"

lemma draw_items_x: "c \<in> set (draw_items f y items) \<Longrightarrow> fst (call_xy c) = 270"
  by (induction f y items rule: draw_items.induct) (auto simp: x_start_def)

lemma draw_lines_x: "c \<in> set (draw_lines f i lines) \<Longrightarrow> fst (call_xy c) = 260"
  by (induction f i lines rule: draw_lines.induct) (auto simp: x_start_def)

lemma reason_calls_x: "c \<in> set (reason_calls f r) \<Longrightarrow> fst (call_xy c) = 260 \<or> fst (call_xy c) = 270"
  by (auto simp: reason_calls_def Let_def x_start_def dest: draw_items_x draw_lines_x split: option.splits)

lemma marks_reason_calls: "marks (reason_calls f r) = []"
  unfolding marks_def by (auto simp: filter_empty_conv dest!: reason_calls_x)

lemma checkbox_cases: "checkbox ty = (97, 172) \<or> checkbox ty = (197, 172)"
  by (simp add: checkbox_def Let_def)

lemma marks_receipt_calls:
  "marks (receipt_calls arial data) =
     [Text (checkbox (py_str (get data ''type'' (PyStr ''EFT'')))) ''X'' black (snd (get_fonts arial))]"
proof -
  have "marks (xs @ reason_calls f r) = marks xs" for xs f r
    using marks_reason_calls[of f r] by (simp add: marks_def)
  then show ?thesis
    using checkbox_cases[of "py_str (get data ''type'' (PyStr ''EFT''))"]
    by (auto simp: receipt_calls_def Let_def marks_def split: prod.splits)
qed

lemma contains_here: "contains p (p @ b)"
proof (cases "p @ b")
  case Nil
  then show ?thesis by simp
next
  case (Cons x xs)
  have "startswith (p @ b) p" by (simp add: startswith_def)
  with Cons show ?thesis by simp
qed

lemma contains_append: "contains p (a @ p @ b)"
  by (induction a) (auto simp: contains_here)

lemma contains_Cons: "contains p xs \<Longrightarrow> contains p (x # xs)"
  by simp

lemma upper_append: "upper (a @ b) = upper a @ upper b"
  by (simp add: upper_def)

lemma strip_keeps:
  assumes "w \<noteq> []" "\<not> space (hd w)" "\<not> space (last w)"
  shows "\<exists>a b. strip (pre @ w @ post) = a @ w @ b"
proof -
  have 1: "\<exists>a. lstrip (pre @ w @ post) = a @ w @ post"
  proof (cases "\<forall>x\<in>set pre. space x")
    case True
    then have "dropWhile space (pre @ w @ post) = dropWhile space (w @ post)"
      by (simp add: dropWhile_append)
    also have "\<dots> = w @ post" using assms by (cases w) auto
    finally show ?thesis by (auto simp: lstrip_def)
  next
    case False
    then have "dropWhile space (pre @ w @ post) = dropWhile space pre @ w @ post"
      by (auto simp: dropWhile_append)
    then show ?thesis by (auto simp: lstrip_def)
  qed
  have 2: "\<exists>b. rstrip (a @ w @ post) = a @ w @ b" for a
  proof (cases "\<forall>x\<in>set post. space x")
    case True
    then have "dropWhile space (rev post @ rev w @ rev a) = dropWhile space (rev w @ rev a)"
      by (simp add: dropWhile_append)
    also have "\<dots> = rev w @ rev a" using assms by (cases "rev w") (auto simp: hd_rev)
    finally have "rstrip (a @ w @ post) = a @ w @ []" by (simp add: rstrip_def)
    then show ?thesis by blast
  next
    case False
    then have "dropWhile space (rev post @ rev w @ rev a) = dropWhile space (rev post) @ rev w @ rev a"
      by (auto simp: dropWhile_append)
    then have "rstrip (a @ w @ post) = a @ w @ rev (dropWhile space (rev post))" by (simp add: rstrip_def)
    then show ?thesis by blast
  qed
  from 1 obtain a where "lstrip (pre @ w @ post) = a @ w @ post" by blast
  moreover from 2 obtain b where "rstrip (a @ w @ post) = a @ w @ b" by blast
  ultimately show ?thesis by (metis strip_def)
qed

lemma upper_char_cash:
  "upper_char CHR ''c'' = [67]" "upper_char CHR ''C'' = [67]"
  "upper_char CHR ''a'' = [65]" "upper_char CHR ''A'' = [65]"
  "upper_char CHR ''s'' = [83]" "upper_char CHR ''S'' = [83]"
  "upper_char CHR ''h'' = [72]" "upper_char CHR ''H'' = [72]"
  by code_simp+

lemma code_cash: "map code ''CASH'' = [67, 65, 83, 72]"
  by code_simp

lemma cash_any_case:
  assumes "c1 \<in> {CHR ''c'', CHR ''C''}" "c2 \<in> {CHR ''a'', CHR ''A''}"
          "c3 \<in> {CHR ''s'', CHR ''S''}" "c4 \<in> {CHR ''h'', CHR ''H''}"
  shows "checkbox (pre @ [c1, c2, c3, c4] @ post) = (97, 172)"
proof -
  have "\<not> space c1" "\<not> space c4" using assms by (auto simp: space_def)
  then obtain a b where s: "strip (pre @ [c1, c2, c3, c4] @ post) = a @ [c1, c2, c3, c4] @ b"
    using strip_keeps[of "[c1, c2, c3, c4]" pre post] by auto
  have u: "upper [c1, c2, c3, c4] = map code ''CASH''"
    unfolding code_cash using assms by (auto simp: upper_def upper_char_cash)
  have "contains (map code ''CASH'') (upper a @ map code ''CASH'' @ upper b)"
    by (rule contains_append)
  then show ?thesis
    unfolding checkbox_def Let_def s upper_append u by simp
qed

lemma search_paren_empty: "search paren_re False 0 [] = None"
  by (simp add: search.simps paren_re_def piece_def)

lemma wrap_empty: "wrap w [] = []"
  by (simp add: wrap_def munge_whitespace_def split_chunks.simps wrap_chunks.simps)

lemma reason_calls_empty: "reason_calls f [] = []"
  unfolding reason_calls_def search_paren_empty by (simp add: wrap_empty)

lemma checkbox_EFT: "checkbox ''EFT'' = (197, 172)"
  by code_simp







lemma breakdown_items_675: "breakdown_items ''675 Sadia'' = [''R675 Sadia'']"
  by code_simp

lemma search_paren_675: "search paren_re False 0 ''Feb (675 Sadia)'' = Some ([], [''Feb '', ''('', ''675 Sadia'', '')''])"
  by code_simp

lemma strip_675: "strip ''Feb '' = ''Feb''" "strip ''675 Sadia'' = ''675 Sadia''" "strip ''R675 Sadia'' = ''R675 Sadia''"
  by code_simp+



section \<open>Properties of the matching engine and of the parser\<close>

lemma grow_piece: "grow x (piece p r) = piece (x # p) r"
  by (cases r) (simp_all add: grow_def piece_def)

lemma piece_None: "piece p r = None \<longleftrightarrow> r = None"
  by (simp add: piece_def)

lemma grow_None_piece: "grow x (piece p r) = None \<longleftrightarrow> r = None"
  by (simp add: grow_piece piece_None)

text \<open>What a successful attempt says about the first token.\<close>

lemma run_Once_Some:
  "run (Cls c Once # ts) adv pos s = Some qs \<Longrightarrow>
     \<exists>x xs ps. s = x # xs \<and> c x \<and> qs = [x] # ps \<and> run ts False (Suc pos) xs = Some ps"
  by (cases s) (auto simp: piece_Some split: if_splits)

lemma run_Star_Some:
  "run (Cls c ZeroOrMore # ts) adv pos s = Some qs \<Longrightarrow>
     \<exists>p ps rest. s = p @ rest \<and> (\<forall>x\<in>set p. c x) \<and> qs = p # ps \<and>
        run ts (if p = [] then adv else False) (pos + length p) rest = Some ps"
proof (induction s arbitrary: adv pos qs)
  case Nil
  then show ?case by (auto simp: piece_Some)
next
  case (Cons x xs)
  let ?r = "run (Cls c ZeroOrMore # ts) False (Suc pos) xs"
  show ?case
  proof (cases "c x \<and> ?r \<noteq> None")
    case True
    then obtain rs where r: "?r = Some rs" by auto
    from Cons.IH[OF r] obtain p ps rest where
      p: "xs = p @ rest" "\<forall>x\<in>set p. c x" "rs = p # ps"
         "run ts False (Suc pos + length p) rest = Some ps"
      by (auto split: if_splits)
    from Cons.prems True r p have "qs = (x # p) # ps" by (simp add: grow_def)
    with True p show ?thesis
      by (intro exI[of _ "x # p"] exI[of _ ps] exI[of _ rest]) simp
  next
    case False
    then have "run (Cls c ZeroOrMore # ts) adv pos (x # xs) = piece [] (run ts adv pos (x # xs))"
      by (auto simp: grow_def)
    with Cons.prems have "piece [] (run ts adv pos (x # xs)) = Some qs" by simp
    then obtain ps where "run ts adv pos (x # xs) = Some ps" "qs = [] # ps"
      unfolding piece_Some by blast
    then show ?thesis by (intro exI[of _ "[]"] exI[of _ ps] exI[of _ "x # xs"]) simp
  qed
qed

lemma run_Plus_Some:
  assumes "run (Cls c OneOrMore # ts) adv pos s = Some qs"
  shows "\<exists>p ps rest. s = p @ rest \<and> p \<noteq> [] \<and> (\<forall>x\<in>set p. c x) \<and> qs = p # ps \<and>
        run ts False (pos + length p) rest = Some ps"
proof (cases s)
  case Nil
  with assms show ?thesis by simp
next
  case (Cons x xs)
  with assms have cx: "c x" by (simp split: if_splits)
  with assms Cons obtain rs where r: "run (Cls c ZeroOrMore # ts) False (Suc pos) xs = Some rs"
    by (cases "run (Cls c ZeroOrMore # ts) False (Suc pos) xs") (auto simp: grow_def)
  from run_Star_Some[OF r] obtain p ps rest where
    p: "xs = p @ rest" "\<forall>x\<in>set p. c x" "rs = p # ps"
       "run ts False (Suc pos + length p) rest = Some ps"
    by (auto split: if_splits)
  from assms Cons cx r p have "qs = (x # p) # ps" by (simp add: grow_def)
  with cx p Cons show ?thesis
    by (intro exI[of _ "x # p"] exI[of _ ps] exI[of _ rest]) simp
qed


text \<open>
  A greedy repetition takes the text \<open>u\<close> when the rest of the pattern matches after
  \<open>u\<close> and after no longer run of the class; a non-greedy one when it matches after no
  shorter run.
\<close>

lemma run_Star_greedy:
  assumes "\<forall>x\<in>set u. c x"
      and "run ts False (pos + length u) v = Some ps"
      and "\<And>u' v'. u @ v = u' @ v' \<Longrightarrow> length u < length u' \<Longrightarrow> \<forall>x\<in>set u'. c x \<Longrightarrow>
             run ts False (pos + length u') v' = None"
  shows "run (Cls c ZeroOrMore # ts) False pos (u @ v) = Some (u # ps)"
  using assms
proof (induction u arbitrary: pos)
  case Nil
  show ?case
  proof (cases v)
    case Nil
    with Nil.prems show ?thesis by (simp add: piece_def)
  next
    case (Cons x xs)
    have "run (Cls c ZeroOrMore # ts) False (Suc pos) xs = None" if "c x"
    proof (rule ccontr)
      assume "run (Cls c ZeroOrMore # ts) False (Suc pos) xs \<noteq> None"
      then obtain qs where "run (Cls c ZeroOrMore # ts) False (Suc pos) xs = Some qs" by auto
      from run_Star_Some[OF this] obtain p ps' rest where
        p: "xs = p @ rest" "\<forall>x\<in>set p. c x" "run ts False (Suc pos + length p) rest = Some ps'"
        by (auto split: if_splits)
      have "run ts False (pos + length (x # p)) rest = None"
        using Nil.prems(3)[of "x # p" rest] p that Cons by auto
      with p show False by simp
    qed
    with Nil.prems Cons show ?thesis by (auto simp: piece_def grow_def)
  qed
next
  case (Cons y u)
  have "run (Cls c ZeroOrMore # ts) False (Suc pos) (u @ v) = Some (u # ps)"
  proof (rule Cons.IH)
    show "\<forall>x\<in>set u. c x" using Cons.prems by simp
    show "run ts False (Suc pos + length u) v = Some ps" using Cons.prems by simp
    show "run ts False (Suc pos + length u') v' = None"
      if "u @ v = u' @ v'" "length u < length u'" "\<forall>x\<in>set u'. c x" for u' v'
      using Cons.prems(3)[of "y # u'" v'] that Cons.prems(1) by simp
  qed
  with Cons.prems show ?case by (simp add: grow_def)
qed

lemma run_Plus_greedy:
  assumes "u \<noteq> []" "\<forall>x\<in>set u. c x"
      and "run ts False (pos + length u) v = Some ps"
      and "\<And>u' v'. u @ v = u' @ v' \<Longrightarrow> length u < length u' \<Longrightarrow> \<forall>x\<in>set u'. c x \<Longrightarrow>
             run ts False (pos + length u') v' = None"
  shows "run (Cls c OneOrMore # ts) adv pos (u @ v) = Some (u # ps)"
proof -
  obtain y u0 where u: "u = y # u0" using assms(1) by (cases u) auto
  have "run (Cls c ZeroOrMore # ts) False (Suc pos) (u0 @ v) = Some (u0 # ps)"
  proof (rule run_Star_greedy)
    show "\<forall>x\<in>set u0. c x" using assms u by simp
    show "run ts False (Suc pos + length u0) v = Some ps" using assms u by simp
    show "run ts False (Suc pos + length u') v' = None"
      if "u0 @ v = u' @ v'" "length u0 < length u'" "\<forall>x\<in>set u'. c x" for u' v'
      using assms(4)[of "y # u'" v'] that assms(2) u by simp
  qed
  with assms u show ?thesis by (simp add: grow_def)
qed

lemma run_Lazy_shortest:
  assumes "\<forall>x\<in>set u. c x"
      and "run ts False (pos + length u) v = Some ps"
      and "\<And>u' v'. u @ v = u' @ v' \<Longrightarrow> length u' < length u \<Longrightarrow>
             run ts False (pos + length u') v' = None"
  shows "run (Cls c ZeroOrMoreLazy # ts) False pos (u @ v) = Some (u # ps)"
  using assms
proof (induction u arbitrary: pos)
  case Nil
  then show ?case by (cases v) (simp_all add: piece_def)
next
  case (Cons y u)
  have 0: "run ts False pos (y # u @ v) = None"
    using Cons.prems(3)[of "[]" "y # u @ v"] by simp
  have "run (Cls c ZeroOrMoreLazy # ts) False (Suc pos) (u @ v) = Some (u # ps)"
  proof (rule Cons.IH)
    show "\<forall>x\<in>set u. c x" using Cons.prems by simp
    show "run ts False (Suc pos + length u) v = Some ps" using Cons.prems by simp
    show "run ts False (Suc pos + length u') v' = None"
      if "u @ v = u' @ v'" "length u' < length u" for u' v'
      using Cons.prems(3)[of "y # u'" v'] that by simp
  qed
  with Cons.prems 0 show ?case by (simp add: grow_def piece_def)
qed






lemma case_option_id: "(case r of None \<Rightarrow> None | Some x \<Rightarrow> Some x) = r"
  by (cases r) simp_all

lemma run_Star_disjoint:
  assumes "\<And>x. d x \<Longrightarrow> \<not> e x" "q = Once \<or> q = OneOrMore"
  shows "run (Cls d ZeroOrMore # Cls e q # ts) False pos s =
           piece (takeWhile d s)
             (run (Cls e q # ts) False (pos + length (takeWhile d s)) (dropWhile d s))"
proof (induction s arbitrary: pos)
  case Nil
  then show ?case by simp
next
  case (Cons x xs)
  show ?case
  proof (cases "d x")
    case True
    then have N: "run (Cls e q # ts) False pos (x # xs) = None"
      using assms by auto
    have "run (Cls d ZeroOrMore # Cls e q # ts) False pos (x # xs) =
            (case grow x (run (Cls d ZeroOrMore # Cls e q # ts) False (Suc pos) xs) of
               Some r \<Rightarrow> Some r | None \<Rightarrow> piece [] (run (Cls e q # ts) False pos (x # xs)))"
      using True by (subst run.simps(9)) simp
    also have "\<dots> = grow x (run (Cls d ZeroOrMore # Cls e q # ts) False (Suc pos) xs)"
      by (cases "grow x (run (Cls d ZeroOrMore # Cls e q # ts) False (Suc pos) xs)")
         (simp_all add: N piece_def)
    also have "\<dots> = piece (x # takeWhile d xs)
             (run (Cls e q # ts) False (Suc pos + length (takeWhile d xs)) (dropWhile d xs))"
      unfolding Cons.IH grow_piece ..
    finally show ?thesis using True by simp
  next
    case False
    then show ?thesis by simp
  qed
qed

lemma run_Plus_disjoint:
  assumes "\<And>x. d x \<Longrightarrow> \<not> e x" "q = Once \<or> q = OneOrMore"
  shows "run (Cls d OneOrMore # Cls e q # ts) adv pos s =
           (if takeWhile d s = [] then None
            else piece (takeWhile d s)
                   (run (Cls e q # ts) False (pos + length (takeWhile d s)) (dropWhile d s)))"
proof (cases s)
  case Nil
  then show ?thesis by simp
next
  case (Cons x xs)
  then show ?thesis
    by (simp add: run_Star_disjoint[OF assms] grow_piece)
qed











lemma dot_iff: "(\<forall>x\<in>set u. dot x) \<longleftrightarrow> newline \<notin> set u"
  by (auto simp: dot_def)



lemma search_hit: "run ts adv pos s = Some ps \<Longrightarrow> search ts adv pos s = Some ([], ps)"
  by (cases s) (simp_all add: search.simps)



lemma takeWhile_stop:
  "\<forall>x\<in>set p. c x \<Longrightarrow> r = [] \<or> \<not> c (hd r) \<Longrightarrow> takeWhile c (p @ r) = p"
  by (cases r) (simp_all add: takeWhile_append)

lemma dropWhile_stop:
  "\<forall>x\<in>set p. c x \<Longrightarrow> r = [] \<or> \<not> c (hd r) \<Longrightarrow> dropWhile c (p @ r) = r"
  by (cases r) (simp_all add: dropWhile_append)

lemma not_space_R: "\<not> space CHR ''R''"
  by (simp add: space_def)

lemma digit_not_space: "digit x \<Longrightarrow> \<not> space x"
  by (auto simp: digit_def space_def)

lemma amount_followsI:
  assumes "w1 \<noteq> []" "\<forall>x\<in>set w1. space x" "ds \<noteq> []" "\<forall>x\<in>set ds. digit x"
      and "w2 \<noteq> []" "space (hd w2)"
  shows "amount_follows (w1 @ CHR ''R'' # ds @ w2 @ r)"
proof -
  have 1: "takeWhile space (w1 @ CHR ''R'' # ds @ w2 @ r) = w1"
    using assms(2) by (intro takeWhile_stop) (simp_all add: not_space_R)
  have 2: "dropWhile space (w1 @ CHR ''R'' # ds @ w2 @ r) = CHR ''R'' # ds @ w2 @ r"
    using assms(2) by (intro dropWhile_stop) (simp_all add: not_space_R)
  have nd: "w2 @ r = [] \<or> \<not> digit (hd (w2 @ r))"
    using assms(5,6) digit_not_space by (cases w2) auto
  have 3: "takeWhile digit (ds @ w2 @ r) = ds"
    using assms(4) nd by (intro takeWhile_stop)
  have 4: "dropWhile digit (ds @ w2 @ r) = w2 @ r"
    using assms(4) nd by (intro dropWhile_stop)
  have 5: "(case w2 @ r of [] \<Rightarrow> False | x # _ \<Rightarrow> space x)"
    using assms(5,6) by (cases w2) auto
  show ?thesis
    unfolding amount_follows_def 1 2 using assms(1,3) 5 by (simp add: 3 4)
qed

lemma longer_prefix_hd:
  assumes "W @ R = u' @ v'" "length W < length u'"
  shows "R \<noteq> [] \<and> hd R \<in> set u'"
proof -
  from assms have R: "R = drop (length W) u' @ v'"
    by (simp add: append_eq_append_conv_if)
  from assms(2) have ne: "drop (length W) u' \<noteq> []" by simp
  then have "hd (drop (length W) u') \<in> set u'"
    by (meson hd_in_set in_set_dropD)
  with R ne show ?thesis by simp
qed

lemma run_line_tail_Some:
  assumes "run line_tail adv p v = Some ps"
  shows "amount_follows v"
proof -
  from run_Plus_Some[OF assms[unfolded line_tail_def]] obtain w1 ps1 r1 where
    1: "v = w1 @ r1" "w1 \<noteq> []" "\<forall>x\<in>set w1. space x"
    and r1: "run [Cls (is_chr CHR ''R'') Once, Cls digit OneOrMore, Cls space OneOrMore,
                  Cls dot ZeroOrMore, Eol] False (p + length w1) r1 = Some ps1"
    by blast
  from run_Once_Some[OF r1] obtain r2 ps2 where
    2: "r1 = CHR ''R'' # r2"
    and r2: "run [Cls digit OneOrMore, Cls space OneOrMore, Cls dot ZeroOrMore, Eol] False
               (Suc (p + length w1)) r2 = Some ps2"
    by (auto simp: is_chr_def)
  from run_Plus_Some[OF r2] obtain ds ps3 r3 where
    3: "r2 = ds @ r3" "ds \<noteq> []" "\<forall>x\<in>set ds. digit x"
    and r3: "run [Cls space OneOrMore, Cls dot ZeroOrMore, Eol] False
               (Suc (p + length w1) + length ds) r3 = Some ps3"
    by blast
  from run_Plus_Some[OF r3] obtain w2 r4 where
    4: "r3 = w2 @ r4" "w2 \<noteq> []" "\<forall>x\<in>set w2. space x"
    by blast
  have "space (hd w2)" using 4 by (cases w2) auto
  from amount_followsI[OF 1(2,3) 3(2,3) 4(2) this, of r4] show ?thesis
    using 1 2 3 4 by simp
qed

lemma run_line_tail:
  assumes "w1 \<noteq> []" "\<forall>x\<in>set w1. space x" "ds \<noteq> []" "\<forall>x\<in>set ds. digit x"
      and "w2 \<noteq> []" "\<forall>x\<in>set w2. space x" "newline \<notin> set rest"
  shows "run line_tail False p (w1 @ CHR ''R'' # ds @ w2 @ rest) =
           Some [w1, ''R'', ds, w2 @ takeWhile space rest, dropWhile space rest]"
proof -
  let ?W = "w2 @ takeWhile space rest" and ?R = "dropWhile space rest"
  have nl: "newline \<notin> set ?R" using assms(7) by (meson in_mono set_dropWhileD subsetI)
  have hdR: "?R = [] \<or> \<not> space (hd ?R)" by (metis hd_dropWhile)
  have dots: "run [Cls dot ZeroOrMore, Eol] False q (?R @ []) = Some (?R # [])" for q
  proof (rule run_Star_greedy)
    show "\<forall>x\<in>set ?R. dot x" using nl by (simp add: dot_iff)
    show "run [Eol] False (q + length ?R) [] = Some []" by simp
    show "run [Eol] False (q + length u') v' = None"
      if "?R @ [] = u' @ v'" "length ?R < length u'" for u' v'
      using that by (metis append_Nil2 length_append not_add_less1)
  qed
  have sp: "run [Cls space OneOrMore, Cls dot ZeroOrMore, Eol] False q (?W @ ?R) = Some (?W # [?R])" for q
  proof (rule run_Plus_greedy)
    show "?W \<noteq> []" using assms(5) by simp
    show "\<forall>x\<in>set ?W. space x" using assms(6) by (auto dest: set_takeWhileD)
    show "run [Cls dot ZeroOrMore, Eol] False (q + length ?W) ?R = Some [?R]"
      using dots[of "q + length ?W"] by simp
    show "run [Cls dot ZeroOrMore, Eol] False (q + length u') v' = None"
      if eq: "?W @ ?R = u' @ v'" and len: "length ?W < length u'" and s: "\<forall>x\<in>set u'. space x"
      for u' v'
    proof -
      from longer_prefix_hd[OF eq len] s have "?R \<noteq> []" "space (hd ?R)" by auto
      with hdR show ?thesis by simp
    qed
  qed
  have WR: "?W @ ?R = w2 @ rest" by simp
  have d: "run [Cls digit OneOrMore, Cls space OneOrMore, Cls dot ZeroOrMore, Eol] False q
             (ds @ w2 @ rest) = Some [ds, ?W, ?R]" for q
  proof -
    have nd: "w2 @ rest = [] \<or> \<not> digit (hd (w2 @ rest))"
      using assms(5,6) digit_not_space by (cases w2) auto
    have t: "takeWhile digit (ds @ w2 @ rest) = ds" "dropWhile digit (ds @ w2 @ rest) = w2 @ rest"
      using assms(4) nd by (rule takeWhile_stop, rule dropWhile_stop)
    show ?thesis
      using sp[of "q + length ds"] assms(3)
      by (subst run_Plus_disjoint) (auto simp: digit_not_space t WR piece_def)
  qed
  have t1: "takeWhile space (w1 @ CHR ''R'' # ds @ w2 @ rest) = w1"
           "dropWhile space (w1 @ CHR ''R'' # ds @ w2 @ rest) = CHR ''R'' # ds @ w2 @ rest"
    using assms(2) by (intro takeWhile_stop dropWhile_stop; simp add: not_space_R)+
  show ?thesis
    unfolding line_tail_def using assms(1) d[of "Suc (p + length w1)"]
    by (subst run_Plus_disjoint) (auto simp: is_chr_def not_space_R t1 piece_def)
qed

lemma line_re_tail: "line_re = Bol # Cls dot ZeroOrMoreLazy # line_tail"
  by (simp add: line_re_def line_tail_def)

lemma run_line_re:
  assumes "w1 \<noteq> []" "\<forall>x\<in>set w1. space x" "ds \<noteq> []" "\<forall>x\<in>set ds. digit x"
      and "w2 \<noteq> []" "\<forall>x\<in>set w2. space x"
      and "newline \<notin> set nm" "newline \<notin> set rest"
      and least: "\<forall>k<length nm. \<not> amount_follows (drop k (nm @ w1 @ CHR ''R'' # ds @ w2 @ rest))"
  shows "run line_re False 0 (nm @ w1 @ CHR ''R'' # ds @ w2 @ rest) =
           Some [nm, w1, ''R'', ds, w2 @ takeWhile space rest, dropWhile space rest]"
proof -
  let ?v = "w1 @ CHR ''R'' # ds @ w2 @ rest"
  have "run (Cls dot ZeroOrMoreLazy # line_tail) False 0 (nm @ ?v) =
          Some (nm # [w1, ''R'', ds, w2 @ takeWhile space rest, dropWhile space rest])"
  proof (rule run_Lazy_shortest)
    show "\<forall>x\<in>set nm. dot x" using assms(7) by (simp add: dot_iff)
    show "run line_tail False (0 + length nm) ?v =
            Some [w1, ''R'', ds, w2 @ takeWhile space rest, dropWhile space rest]"
      by (rule run_line_tail[OF assms(1-6,8)])
    show "run line_tail False (0 + length u') v' = None"
      if eq: "nm @ ?v = u' @ v'" and len: "length u' < length nm" for u' v'
    proof (rule ccontr)
      assume "run line_tail False (0 + length u') v' \<noteq> None"
      then have "amount_follows v'" using run_line_tail_Some by blast
      moreover have "v' = drop (length u') (nm @ ?v)" using eq by simp
      ultimately show False using least len by auto
    qed
  qed
  then show ?thesis by (simp add: line_re_tail)
qed






lemma strip_parts: "\<exists>a b. s = a @ strip s @ b"
proof -
  have 1: "s = takeWhile space s @ lstrip s" by (simp add: lstrip_def)
  have 2: "t = rstrip t @ rev (takeWhile space (rev t))" for t
    by (metis rev_append rev_rev_ident rstrip_def takeWhile_dropWhile_id)
  show ?thesis using 1 2[of "lstrip s"] unfolding strip_def by (metis append.assoc)
qed



lemma strip_hd: "strip s \<noteq> [] \<Longrightarrow> \<not> space (hd (strip s))"
proof -
  assume ne: "strip s \<noteq> []"
  have p: "lstrip s = strip s @ rev (takeWhile space (rev (lstrip s)))"
    unfolding strip_def
    by (metis rev_append rev_rev_ident rstrip_def takeWhile_dropWhile_id)
  then have "hd (lstrip s) = hd (strip s)" using ne by (metis hd_append2)
  moreover have "lstrip s \<noteq> []" using p ne by auto
  then have "\<not> space (hd (lstrip s))" unfolding lstrip_def by (metis hd_dropWhile)
  ultimately show ?thesis by simp
qed

lemma strip_id: "s \<noteq> [] \<Longrightarrow> \<not> space (hd s) \<Longrightarrow> \<not> space (last s) \<Longrightarrow> strip s = s"
proof -
  assume a: "s \<noteq> []" "\<not> space (hd s)" "\<not> space (last s)"
  then have 1: "lstrip s = s" by (cases s) (simp_all add: lstrip_def)
  from a have "dropWhile space (rev s) = rev s"
    by (cases "rev s") (auto simp: last_rev hd_rev)
  then have "rstrip s = s" by (simp add: rstrip_def)
  with 1 show ?thesis by (simp add: strip_def)
qed

lemma strip_dropWhile: "strip (dropWhile space s) = strip s"
  by (simp add: strip_def lstrip_def)

lemma parse_line_matched:
  assumes s: "strip line = nm @ w1 @ CHR ''R'' # ds @ w2 @ rest"
      and w1: "w1 \<noteq> []" "\<forall>x\<in>set w1. space x"
      and ds: "ds \<noteq> []" "\<forall>x\<in>set ds. digit x"
      and w2: "w2 \<noteq> []" "\<forall>x\<in>set w2. space x"
      and nl: "newline \<notin> set line"
      and least: "\<forall>k<length nm. \<not> amount_follows (drop k (strip line))"
  shows "parse_line today line =
           [''rn'' \<mapsto> PyStr [], ''date'' \<mapsto> PyStr today, ''name'' \<mapsto> PyStr nm,
            ''amount'' \<mapsto> PyStr (CHR ''R'' # ds), ''reason'' \<mapsto> PyStr (strip rest),
            ''type'' \<mapsto> PyStr ''EFT'']"
    and "nm \<noteq> []" and "strip nm = nm"
proof -
  obtain a b where "line = a @ strip line @ b" using strip_parts by blast
  then have "set (strip line) \<subseteq> set line" by (metis Un_upper1 Un_upper2 set_append subset_trans)
  with nl s have nl': "newline \<notin> set nm" "newline \<notin> set rest" by auto
  have ne: "strip line \<noteq> []" using s by simp
  have hd_w1: "space (hd w1)" using w1 by (cases w1) auto
  show nm: "nm \<noteq> []"
  proof
    assume "nm = []"
    with s w1 have "hd (strip line) = hd w1" by simp
    with strip_hd[OF ne] hd_w1 show False by simp
  qed
  then have "hd nm = hd (strip line)" using s by simp
  then have h: "\<not> space (hd nm)" using strip_hd[OF ne] by simp
  have l: "\<not> space (last nm)"
  proof
    assume sp: "space (last nm)"
    have "amount_follows ((last nm # w1) @ CHR ''R'' # ds @ w2 @ rest)"
      using w1 ds w2 sp by (intro amount_followsI) (auto simp: hd_conv_nth intro: hd_in_set)
    moreover have "drop (length nm - 1) (strip line) = (last nm # w1) @ CHR ''R'' # ds @ w2 @ rest"
      using nm unfolding s
      by (metis append_Cons append_Nil append_butlast_last_id append_eq_conv_conj
                append.assoc length_butlast)
    ultimately show False using least nm by (metis diff_less length_greater_0_conv zero_less_one)
  qed
  show sn: "strip nm = nm" using nm h l by (rule strip_id)
  have "last (CHR ''R'' # ds) \<in> set ds" using ds(1) by simp
  then have "\<not> space (last (CHR ''R'' # ds))" using ds(2) digit_not_space by blast
  then have sa: "strip (CHR ''R'' # ds) = CHR ''R'' # ds"
    by (intro strip_id) (simp_all add: not_space_R)
  have "run line_re False 0 (strip line) =
          Some [nm, w1, ''R'', ds, w2 @ takeWhile space rest, dropWhile space rest]"
    unfolding s using least[unfolded s] by (intro run_line_re w1 ds w2 nl')
  then have "search line_re False 0 (strip line) =
          Some ([], [nm, w1, ''R'', ds, w2 @ takeWhile space rest, dropWhile space rest])"
    by (rule search_hit)
  then show "parse_line today line =
           [''rn'' \<mapsto> PyStr [], ''date'' \<mapsto> PyStr today, ''name'' \<mapsto> PyStr nm,
            ''amount'' \<mapsto> PyStr (CHR ''R'' # ds), ''reason'' \<mapsto> PyStr (strip rest),
            ''type'' \<mapsto> PyStr ''EFT'']"
    by (simp add: parse_line_def sn sa strip_dropWhile)
qed

lemma parse_line_fallback:
  "search line_re False 0 (strip line) = None \<Longrightarrow>
     parse_line today line =
       [''rn'' \<mapsto> PyStr [], ''date'' \<mapsto> PyStr today, ''name'' \<mapsto> PyStr (take 20 line @ ''...''),
        ''amount'' \<mapsto> PyStr [], ''reason'' \<mapsto> PyStr line, ''type'' \<mapsto> PyStr ''EFT'']"
  by (simp add: parse_line_def)


lemma split_nl_nonempty: "split_nl t \<noteq> []"
  by (induction t) (auto split: list.splits)










lemma split_nl_no_newline: "l \<in> set (split_nl t) \<Longrightarrow> newline \<notin> set l"
proof (induction t arbitrary: l)
  case Nil
  then show ?case by simp
next
  case (Cons c t)
  obtain m ms where s: "split_nl t = m # ms" using split_nl_nonempty by (cases "split_nl t") auto
  with Cons show ?case by (auto split: if_splits)
qed


text \<open>
  Claim C2, as stated, fails: the line \<open>R2025 Feb\<close> has no leading text, the token
  \<open>R2025\<close> and the remainder \<open>Feb\<close>, yet the parser builds the fallback row for it, with
  an empty amount.
\<close>

theorem parse_line_counterexample:
  "claimed_fields ''R2025 Feb'' = Some ([], ''R2025'', '' Feb'') \<and>
   parse_line ''2026-11-03'' ''R2025 Feb'' =
     [''rn'' \<mapsto> PyStr [], ''date'' \<mapsto> PyStr ''2026-11-03'',
      ''name'' \<mapsto> PyStr ''R2025 Feb...'', ''amount'' \<mapsto> PyStr [],
      ''reason'' \<mapsto> PyStr ''R2025 Feb'', ''type'' \<mapsto> PyStr ''EFT'']"
proof -
  have "claimed_fields ''R2025 Feb'' = Some ([], ''R2025'', '' Feb'')" by code_simp
  moreover have "search line_re False 0 (strip ''R2025 Feb'') = None" by code_simp
  ultimately show ?thesis by (simp add: parse_line_fallback)
qed

text \<open>
  Claim C2, amended.  When the trimmed line is a name, white space, the letter R with
  one or more digits, white space and a remainder, the line has no newline, and the name
  is the shortest text in front of such a token, then the parser builds the row with that
  name, the R with its digits as amount, the trimmed remainder as reason, type EFT, today's
  date and an empty receipt number; the name is then not empty and has no white space at
  its ends.  The line \<open>Ebrahims R2025 Feb (R675 sadia aqua R675 Faatima R675 Mo)\<close> gives
  the name \<open>Ebrahims\<close>, the amount \<open>R2025\<close> and the reason
  \<open>Feb (R675 sadia aqua R675 Faatima R675 Mo)\<close>.
\<close>

theorem parse_line_matched_fields:
  "(strip line = nm @ w1 @ CHR ''R'' # ds @ w2 @ rest \<and>
    w1 \<noteq> [] \<and> (\<forall>x\<in>set w1. space x) \<and> ds \<noteq> [] \<and> (\<forall>x\<in>set ds. digit x) \<and>
    w2 \<noteq> [] \<and> (\<forall>x\<in>set w2. space x) \<and> newline \<notin> set line \<and>
    (\<forall>k<length nm. \<not> amount_follows (drop k (strip line))) \<longrightarrow>
      parse_line today line =
        [''rn'' \<mapsto> PyStr [], ''date'' \<mapsto> PyStr today, ''name'' \<mapsto> PyStr nm,
         ''amount'' \<mapsto> PyStr (CHR ''R'' # ds), ''reason'' \<mapsto> PyStr (strip rest),
         ''type'' \<mapsto> PyStr ''EFT''] \<and>
      nm \<noteq> [] \<and> strip nm = nm) \<and>
   parse_line today ''Ebrahims R2025 Feb (R675 sadia aqua R675 Faatima R675 Mo)'' =
     [''rn'' \<mapsto> PyStr [], ''date'' \<mapsto> PyStr today, ''name'' \<mapsto> PyStr ''Ebrahims'',
      ''amount'' \<mapsto> PyStr ''R2025'',
      ''reason'' \<mapsto> PyStr ''Feb (R675 sadia aqua R675 Faatima R675 Mo)'',
      ''type'' \<mapsto> PyStr ''EFT'']"
proof -
  have s: "search line_re False 0 (strip ''Ebrahims R2025 Feb (R675 sadia aqua R675 Faatima R675 Mo)'') =
          Some ([], [''Ebrahims'', '' '', ''R'', ''2025'', '' '',
                     ''Feb (R675 sadia aqua R675 Faatima R675 Mo)''])"
    by code_simp
  have t: "strip ''Ebrahims'' = ''Ebrahims''" "strip ''R2025'' = ''R2025''"
    "strip ''Feb (R675 sadia aqua R675 Faatima R675 Mo)'' =
       ''Feb (R675 sadia aqua R675 Faatima R675 Mo)''"
    by code_simp+
  have "parse_line today ''Ebrahims R2025 Feb (R675 sadia aqua R675 Faatima R675 Mo)'' =
     [''rn'' \<mapsto> PyStr [], ''date'' \<mapsto> PyStr today, ''name'' \<mapsto> PyStr ''Ebrahims'',
      ''amount'' \<mapsto> PyStr ''R2025'',
      ''reason'' \<mapsto> PyStr ''Feb (R675 sadia aqua R675 Faatima R675 Mo)'',
      ''type'' \<mapsto> PyStr ''EFT'']"
    unfolding parse_line_def s by (simp add: t)
  moreover have "strip line = nm @ w1 @ CHR ''R'' # ds @ w2 @ rest \<and>
    w1 \<noteq> [] \<and> (\<forall>x\<in>set w1. space x) \<and> ds \<noteq> [] \<and> (\<forall>x\<in>set ds. digit x) \<and>
    w2 \<noteq> [] \<and> (\<forall>x\<in>set w2. space x) \<and> newline \<notin> set line \<and>
    (\<forall>k<length nm. \<not> amount_follows (drop k (strip line))) \<longrightarrow>
      parse_line today line =
        [''rn'' \<mapsto> PyStr [], ''date'' \<mapsto> PyStr today, ''name'' \<mapsto> PyStr nm,
         ''amount'' \<mapsto> PyStr (CHR ''R'' # ds), ''reason'' \<mapsto> PyStr (strip rest),
         ''type'' \<mapsto> PyStr ''EFT''] \<and>
      nm \<noteq> [] \<and> strip nm = nm"
  proof (intro impI, elim conjE, intro conjI)
    assume h: "strip line = nm @ w1 @ CHR ''R'' # ds @ w2 @ rest" "w1 \<noteq> []"
      "\<forall>x\<in>set w1. space x" "ds \<noteq> []" "\<forall>x\<in>set ds. digit x" "w2 \<noteq> []"
      "\<forall>x\<in>set w2. space x" "newline \<notin> set line"
      "\<forall>k<length nm. \<not> amount_follows (drop k (strip line))"
    show "parse_line today line =
        [''rn'' \<mapsto> PyStr [], ''date'' \<mapsto> PyStr today, ''name'' \<mapsto> PyStr nm,
         ''amount'' \<mapsto> PyStr (CHR ''R'' # ds), ''reason'' \<mapsto> PyStr (strip rest),
         ''type'' \<mapsto> PyStr ''EFT'']"
      by (rule parse_line_matched(1)[OF h])
    show "nm \<noteq> []" by (rule parse_line_matched(2)[OF h])
    show "strip nm = nm" by (rule parse_line_matched(3)[OF h])
  qed
  ultimately show ?thesis by blast
qed

theorem parse_line_matched_fields_witness:
  "strip ''  John Smith  R20 fees '' = ''John Smith'' @ ''  '' @ CHR ''R'' # ''20'' @ '' '' @ ''fees'' \<and>
   parse_line ''2026-11-03'' ''  John Smith  R20 fees '' =
     [''rn'' \<mapsto> PyStr [], ''date'' \<mapsto> PyStr ''2026-11-03'', ''name'' \<mapsto> PyStr ''John Smith'',
      ''amount'' \<mapsto> PyStr ''R20'', ''reason'' \<mapsto> PyStr ''fees'', ''type'' \<mapsto> PyStr ''EFT'']"
proof -
  have 1: "strip ''  John Smith  R20 fees '' =
             ''John Smith'' @ ''  '' @ CHR ''R'' # ''20'' @ '' '' @ ''fees''"
    by code_simp
  have 2: "\<forall>k<length ''John Smith''. \<not> amount_follows (drop k (strip ''  John Smith  R20 fees ''))"
    by code_simp
  have 3: "\<forall>x\<in>set ''  ''. space x" "\<forall>x\<in>set ''20''. digit x" "\<forall>x\<in>set '' ''. space x"
    "newline \<notin> set ''  John Smith  R20 fees ''" "strip ''fees'' = ''fees''"
    by code_simp+
  show ?thesis
    using parse_line_matched_fields [of "''  John Smith  R20 fees ''" "''John Smith''" "''  ''"
             "''20''" "'' ''" "''fees''" "''2026-11-03''"] 1 2 3
    by simp
qed



text \<open>
  Claim C4.  When the parenthesised group is found, the items are extracted from its
  trimmed body, with an \<open>R\<close> put in front of the body when the trimmed body does not
  start with the letter R, and from the body as it is otherwise.  The reason \<open>Feb (675 Sadia)\<close> gives the one
  item \<open>R675 Sadia\<close>, drawn as \<open>- R675 Sadia\<close> under the main reason \<open>Feb\<close>.
\<close>

theorem breakdown_prepends_R:
  "(search paren_re False 0 raw_reason = Some (skipped, ps) \<longrightarrow>
      reason_calls f raw_reason =
        Text (260, 355) (strip (ps ! 0)) black f
          # draw_items f 375 (breakdown_items (strip (ps ! 2)))) \<and>
   (\<not> startswith (strip body) ''R'' \<longrightarrow>
      breakdown_items body = findall item_re False 0 (''R'' @ body)) \<and>
   (startswith (strip body) ''R'' \<longrightarrow> breakdown_items body = findall item_re False 0 body) \<and>
   breakdown_items ''675 Sadia'' = [''R675 Sadia''] \<and>
   reason_calls f ''Feb (675 Sadia)'' =
     [Text (260, 355) ''Feb'' black f, Text (270, 375) ''- R675 Sadia'' black f]"
proof -
  have 1: "search paren_re False 0 raw_reason = Some (skipped, ps) \<longrightarrow>
      reason_calls f raw_reason =
        Text (260, 355) (strip (ps ! 0)) black f
          # draw_items f 375 (breakdown_items (strip (ps ! 2)))"
    by (simp add: reason_calls_def Let_def x_start_def y_start_def line_height_def)
  have 2: "\<not> startswith (strip body) ''R'' \<longrightarrow>
      breakdown_items body = findall item_re False 0 (''R'' @ body)"
    by (simp add: breakdown_items_def)
  have 3: "startswith (strip body) ''R'' \<longrightarrow> breakdown_items body = findall item_re False 0 body"
    by (simp add: breakdown_items_def)
  have 4: "reason_calls f ''Feb (675 Sadia)'' =
          [Text (260, 355) ''Feb'' black f, Text (270, 375) ''- R675 Sadia'' black f]"
    unfolding reason_calls_def search_paren_675
    by (simp add: strip_675 breakdown_items_675 x_start_def y_start_def line_height_def)
  from 1 2 3 4 breakdown_items_675 show ?thesis by blast
qed

theorem breakdown_prepends_R_witness:
  "search paren_re False 0 ''Feb (675 Sadia)'' =
     Some ([], [''Feb '', ''('', ''675 Sadia'', '')'']) \<and>
   \<not> startswith (strip ''675 Sadia'') ''R'' \<and>
   reason_calls Default_font ''Feb (675 Sadia)'' =
     Text (260, 355) ''Feb'' black Default_font
       # draw_items Default_font 375 (findall item_re False 0 ''R675 Sadia'')"
  using breakdown_prepends_R [of "''Feb (675 Sadia)''" "[]" "[''Feb '', ''('', ''675 Sadia'', '')'']"
                                 Default_font "''675 Sadia''"]
  by (simp add: search_paren_675 strip_675 startswith_def)



text \<open>
  Claim C7.  Among the calls of one rendering, exactly one draws at one of the two
  checkbox positions: it draws the mark \<open>X\<close> in the checkbox font, at (97,172) when the
  trimmed, upper-cased payment type contains \<open>CASH\<close> and at (197,172) otherwise.  A payment
  type that contains the word cash in any mix of upper and lower case gets the mark at
  (97,172); the empty payment type gets it at (197,172).
\<close>

theorem checkbox_exactly_one:
  "marks (receipt_calls arial data) =
     [Text (if contains (map code ''CASH'')
                 (upper (strip (py_str (get data ''type'' (PyStr ''EFT'')))))
            then (97, 172) else (197, 172))
        ''X'' black (snd (get_fonts arial))] \<and>
   (c1 \<in> {CHR ''c'', CHR ''C''} \<and> c2 \<in> {CHR ''a'', CHR ''A''} \<and>
    c3 \<in> {CHR ''s'', CHR ''S''} \<and> c4 \<in> {CHR ''h'', CHR ''H''} \<longrightarrow>
      marks (receipt_calls arial (data(''type'' \<mapsto> PyStr (pre @ [c1, c2, c3, c4] @ post)))) =
        [Text (97, 172) ''X'' black (snd (get_fonts arial))]) \<and>
   marks (receipt_calls arial (data(''type'' \<mapsto> PyStr []))) =
     [Text (197, 172) ''X'' black (snd (get_fonts arial))]"
proof -
  have "checkbox [] = (197, 172)" by code_simp
  then show ?thesis
    using cash_any_case[of c1 c2 c3 c4 pre post]
    by (auto simp: marks_receipt_calls get_def checkbox_def Let_def)
qed

theorem checkbox_exactly_one_witness:
  "CHR ''c'' \<in> {CHR ''c'', CHR ''C''} \<and> CHR ''A'' \<in> {CHR ''a'', CHR ''A''} \<and>
   CHR ''s'' \<in> {CHR ''s'', CHR ''S''} \<and> CHR ''H'' \<in> {CHR ''h'', CHR ''H''} \<and>
   marks (receipt_calls True (Map.empty(''type'' \<mapsto> PyStr ('' paid '' @ ''cAsH'' @ ''!'')))) =
     [Text (97, 172) ''X'' black (Truetype 22)]"
  using checkbox_exactly_one [of True Map.empty "CHR ''c''" "CHR ''A''" "CHR ''s''" "CHR ''H''" "'' paid ''" "''!''"]
  by (simp add: get_fonts_def)



text \<open>
  Claim C9.  A field that is absent from the row is read as the empty string, and the
  payment type as \<open>EFT\<close>: the receipt number, the name, the amount and the date are then
  drawn as empty text at their positions, the mark goes to the EFT checkbox, and for an
  absent reason nothing is drawn.  The renderer has no failing branch.
\<close>

theorem missing_fields_are_empty:
  "(data ''type'' = None \<longrightarrow>
      receipt_calls arial data ! 0 = Text (197, 172) ''X'' black (snd (get_fonts arial))) \<and>
   (data ''rn'' = None \<longrightarrow>
      receipt_calls arial data ! 1 = Text (400, 185) [] black (fst (get_fonts arial))) \<and>
   (data ''name'' = None \<longrightarrow>
      receipt_calls arial data ! 2 = Text (260, 225) [] black (fst (get_fonts arial))) \<and>
   (data ''amount'' = None \<longrightarrow>
      receipt_calls arial data ! 3 = Text (260, 290) [] black (fst (get_fonts arial))) \<and>
   (data ''date'' = None \<longrightarrow>
      receipt_calls arial data ! 4 = Text (400, 443) [] black (fst (get_fonts arial))) \<and>
   (data ''reason'' = None \<longrightarrow> drop 5 (receipt_calls arial data) = [])"
  by (simp add: receipt_calls_def get_def Let_def checkbox_EFT reason_calls_empty
           split: prod.splits)

theorem missing_fields_are_empty_witness:
  "Map.empty ''type'' = None \<and> Map.empty ''rn'' = None \<and> Map.empty ''reason'' = None \<and>
   receipt_calls True Map.empty ! 0 = Text (197, 172) ''X'' black (Truetype 22) \<and>
   receipt_calls True Map.empty ! 1 = Text (400, 185) [] black (Truetype 18) \<and>
   drop 5 (receipt_calls True Map.empty) = []"
  using missing_fields_are_empty [of Map.empty True]
  by (simp add: get_fonts_def)




end
